theory Spec2Isabelle
  imports Main "HOL-Library.Multiset"
begin

section \<open>The task handler of the git extension model\<close>

text \<open>
  The class \<^verbatim>\<open>TaskHandler<T>\<close> keeps a linked list of pending tasks and a signal
  \<^verbatim>\<open>taskChanged\<close> on which it broadcasts strings. The list elements are the object
  literals \<^verbatim>\<open>{ id: id, task: task }\<close>.
\<close>

subsection \<open>Data\<close>

record task_record =
  id' :: string
  task :: string

text \<open>
  The exceptions a call can end with: the \<^verbatim>\<open>TypeError\<close> that JavaScript raises when a
  property of \<^verbatim>\<open>null\<close> or \<^verbatim>\<open>undefined\<close> is read, and whatever value an asynchronous
  callable rejects with.
\<close>

datatype exn = TypeError | Thrown string

text \<open>
  The fields of the class. \<^verbatim>\<open>_taskList\<close> is the list from head to tail.
  \<^verbatim>\<open>_taskChanged\<close> is represented by the payloads it has emitted so far, oldest first: a
  connected slot receives exactly these, in this order. \<^verbatim>\<open>UUID.uuid4()\<close> draws from a
  random source outside the class; \<open>uuid4\<close> holds the values its successive calls return
  and \<open>drawn\<close> counts the calls made.
\<close>

record TaskHandler =
  taskList :: "task_record list"
  taskChanged :: "string list"
  uuid4 :: "nat \<Rightarrow> string"
  drawn :: nat

text \<open>The constructor: an empty list, nothing emitted yet.\<close>

definition new_TaskHandler :: "(nat \<Rightarrow> string) \<Rightarrow> TaskHandler" where
  "new_TaskHandler u = \<lparr>taskList = [], taskChanged = [], uuid4 = u, drawn = 0\<rparr>"

subsection \<open>The linked list operations the class uses\<close>

text \<open>
  \<^verbatim>\<open>LinkedList\<close> comes from the library \<^verbatim>\<open>@phosphor/collections\<close>; these are the members
  that \<^verbatim>\<open>TaskHandler\<close> calls. A node of the list is named by its position. \<^verbatim>\<open>firstNode\<close> is \<^verbatim>\<open>null\<close> on the empty
  list, \<^verbatim>\<open>node.next\<close> is \<^verbatim>\<open>null\<close> at the tail, \<^verbatim>\<open>first\<close> is \<^verbatim>\<open>undefined\<close> on the
  empty list, and \<^verbatim>\<open>removeNode\<close> unlinks one node and keeps the others in order.
\<close>

definition addLast :: "'a \<Rightarrow> 'a list \<Rightarrow> 'a list" where
  "addLast v l = l @ [v]"

definition firstNode :: "'a list \<Rightarrow> nat option" where
  "firstNode l = (if l = [] then None else Some 0)"

definition nextNode :: "'a list \<Rightarrow> nat \<Rightarrow> nat option" where
  "nextNode l node = (if Suc node < length l then Some (Suc node) else None)"

definition removeNode :: "nat \<Rightarrow> 'a list \<Rightarrow> 'a list" where
  "removeNode node l = take node l @ drop (Suc node) l"

definition first :: "'a list \<Rightarrow> 'a option" where
  "first l = (case l of [] \<Rightarrow> None | v # _ \<Rightarrow> Some v)"

subsection \<open>The methods\<close>

definition emit :: "string \<Rightarrow> TaskHandler \<Rightarrow> TaskHandler" where
  "emit payload s = s\<lparr>taskChanged := taskChanged s @ [payload]\<rparr>"

definition generateTaskID :: "TaskHandler \<Rightarrow> string \<times> TaskHandler" where
  "generateTaskID s = (uuid4 s (drawn s), s\<lparr>drawn := Suc (drawn s)\<rparr>)"

text \<open>
  \<^verbatim>\<open>add(task)\<close>: generate the identifier, append the record, emit the task name when the
  list now has length one, return the identifier.
\<close>

definition add :: "string \<Rightarrow> TaskHandler \<Rightarrow> string \<times> TaskHandler" where
  "add task_name s =
     (let (ident, s1) = generateTaskID s;
          s2 = s1\<lparr>taskList := addLast \<lparr>id' = ident, task = task_name\<rparr> (taskList s1)\<rparr>;
          s3 = (if length (taskList s2) = 1 then emit task_name s2 else s2)
      in (ident, s3))"

text \<open>
  The \<^verbatim>\<open>while (node.next)\<close> loop of \<^verbatim>\<open>remove\<close>: step to the next node, and if its
  identifier is the one looked for, unlink it and stop. The test \<^verbatim>\<open>node.value\<close> of the
  source is true of every record, an object. The result is the list after the loop.
\<close>

function walk :: "string \<Rightarrow> task_record list \<Rightarrow> nat \<Rightarrow> task_record list" where
  "walk taskID l node =
     (case nextNode l node of
        None \<Rightarrow> l
      | Some n \<Rightarrow> if id' (l ! n) = taskID then removeNode n l else walk taskID l n)"
  by pat_completeness auto
termination
  by (relation "measure (\<lambda>(taskID, l, node). length l - node)")
     (auto simp: nextNode_def split: if_splits)

declare walk.simps [simp del]

text \<open>
  \<^verbatim>\<open>remove(taskID)\<close>. On the empty list \<^verbatim>\<open>node\<close> is \<^verbatim>\<open>null\<close>: the first test is false
  and the loop condition \<^verbatim>\<open>node.next\<close> reads a property of \<^verbatim>\<open>null\<close>. After the scan the
  method emits \<^verbatim>\<open>'empty'\<close> when the list has length zero and the task name of the first
  record otherwise.
\<close>

definition remove :: "string \<Rightarrow> TaskHandler \<Rightarrow> exn + TaskHandler" where
  "remove taskID s =
     (case firstNode (taskList s) of
        None \<Rightarrow> Inl TypeError
      | Some node \<Rightarrow>
          (let l = (if id' (taskList s ! node) = taskID
                    then removeNode node (taskList s)
                    else walk taskID (taskList s) node);
               s1 = s\<lparr>taskList := l\<rparr>
           in if length l = 0 then Inr (emit ''empty'' s1)
              else (case first l of
                      None \<Rightarrow> Inl TypeError
                    | Some r \<Rightarrow> Inr (emit (task r) s1))))"

text \<open>
  \<^verbatim>\<open>execute(name, callable)\<close>. The callable is awaited: while it is pending, other code
  runs and may call the handler, so the callable is a function from the handler's state
  when it starts to its outcome (\<open>Inr\<close> the value it resolves with, \<open>Inl\<close> what it rejects
  with) and the handler's state when it settles. The \<^verbatim>\<open>finally\<close> block then runs
  \<^verbatim>\<open>remove(taskID)\<close>; an exception raised there replaces the outcome of the \<^verbatim>\<open>try\<close> block.
\<close>

definition execute ::
  "string \<Rightarrow> (TaskHandler \<Rightarrow> (exn + 'r) \<times> TaskHandler) \<Rightarrow> TaskHandler \<Rightarrow> (exn + 'r) \<times> TaskHandler"
where
  "execute name callable s =
     (let (taskID, s1) = add name s;
          (result, s2) = callable s1
      in case remove taskID s2 of
           Inl e \<Rightarrow> (Inl e, s2)
         | Inr s3 \<Rightarrow> (result, s3))"

subsection \<open>Sequences of calls\<close>

datatype call = Add string | Remove string

fun step :: "call \<Rightarrow> TaskHandler \<Rightarrow> exn + TaskHandler" where
  "step (Add t) s = Inr (snd (add t s))"
| "step (Remove i) s = remove i s"

fun run :: "call list \<Rightarrow> TaskHandler \<Rightarrow> exn + TaskHandler" where
  "run [] s = Inr s"
| "run (c # cs) s = (case step c s of Inl e \<Rightarrow> Inl e | Inr s' \<Rightarrow> run cs s')"

text \<open>The list with the first record of a given identifier taken out.\<close>

fun excise :: "string \<Rightarrow> task_record list \<Rightarrow> task_record list" where
  "excise taskID [] = []"
| "excise taskID (r # rs) = (if id' r = taskID then rs else r # excise taskID rs)"

subsection \<open>Sample handlers\<close>

text \<open>
  A source of identifiers that never repeats, and the handler after \<^verbatim>\<open>add('clone')\<close> and
  \<^verbatim>\<open>add('fetch')\<close> on a new one.
\<close>

definition sample_ids :: "nat \<Rightarrow> string" where
  "sample_ids n = replicate (Suc n) CHR ''u''"

definition clone_fetch :: TaskHandler where
  "clone_fetch = snd (add ''fetch'' (snd (add ''clone'' (new_TaskHandler sample_ids))))"

text \<open>
  The handler after \<^verbatim>\<open>add('empty')\<close> and \<^verbatim>\<open>add('fetch')\<close> on a new one: its head
  record has the task name \<^verbatim>\<open>'empty'\<close>.
\<close>

definition empty_fetch :: TaskHandler where
  "empty_fetch = snd (add ''fetch'' (snd (add ''empty'' (new_TaskHandler sample_ids))))"

text \<open>
  Two callables: one rejects and leaves the handler alone; during the other,
  \<^verbatim>\<open>add('pull')\<close> is called on the handler before it resolves.
\<close>

definition rejecting :: "TaskHandler \<Rightarrow> (exn + unit) \<times> TaskHandler" where
  "rejecting h = (Inl (Thrown ''offline''), h)"

definition adding_pull :: "TaskHandler \<Rightarrow> (exn + unit) \<times> TaskHandler" where
  "adding_pull h = (Inr (), snd (add ''pull'' h))"


section \<open>Properties\<close>

subsection \<open>The scan\<close>

lemma walk_excise:
  "node < length l \<Longrightarrow>
   walk taskID l node = take (Suc node) l @ excise taskID (drop (Suc node) l)"
proof (induction taskID l node rule: walk.induct)
  case (1 taskID l node)
  show ?case
  proof (cases "Suc node < length l")
    case False
    then show ?thesis
      by (subst walk.simps) (simp add: nextNode_def)
  next
    case True
    then have d: "drop (Suc node) l = l ! Suc node # drop (Suc (Suc node)) l"
      by (simp add: Cons_nth_drop_Suc)
    show ?thesis
    proof (cases "id' (l ! Suc node) = taskID")
      case hit: True
      with True d show ?thesis
        by (subst walk.simps) (simp add: nextNode_def removeNode_def)
    next
      case miss: False
      have "walk taskID l (Suc node) =
            take (Suc (Suc node)) l @ excise taskID (drop (Suc (Suc node)) l)"
        using "1.IH" [of "Suc node"] True miss by (simp add: nextNode_def)
      with True d miss show ?thesis
        by (subst walk.simps) (simp add: nextNode_def take_Suc_conv_app_nth)
    qed
  qed
qed

lemma scan_excise:
  "l \<noteq> [] \<Longrightarrow>
   (if id' (l ! 0) = taskID then removeNode 0 l else walk taskID l 0) = excise taskID l"
  by (cases l) (simp_all add: removeNode_def walk_excise)

lemma remove_nonempty:
  "taskList s \<noteq> [] \<Longrightarrow>
   remove taskID s =
     Inr (emit (case excise taskID (taskList s) of [] \<Rightarrow> ''empty'' | r # _ \<Rightarrow> task r)
            (s\<lparr>taskList := excise taskID (taskList s)\<rparr>))"
  using scan_excise [of "taskList s" taskID]
  by (simp add: remove_def firstNode_def first_def Let_def split: list.splits)

lemma remove_empty: "taskList s = [] \<Longrightarrow> remove taskID s = Inl TypeError"
  by (simp add: remove_def firstNode_def)

subsection \<open>Facts about taking one record out\<close>

lemma excise_absent: "taskID \<notin> id' ` set l \<Longrightarrow> excise taskID l = l"
  by (induction l) auto

lemma excise_present:
  "taskID \<in> id' ` set l \<Longrightarrow>
   \<exists>xs r ys. l = xs @ r # ys \<and> id' r = taskID \<and> taskID \<notin> id' ` set xs \<and>
             excise taskID l = xs @ ys"
proof (induction l)
  case Nil
  then show ?case by simp
next
  case (Cons a l)
  show ?case
  proof (cases "id' a = taskID")
    case True
    then have "a # l = [] @ a # l \<and> id' a = taskID \<and> taskID \<notin> id' ` set [] \<and>
               excise taskID (a # l) = [] @ l"
      by simp
    then show ?thesis by blast
  next
    case False
    with Cons.prems have "taskID \<in> id' ` set l" by auto
    with Cons.IH obtain xs r ys where
      h: "l = xs @ r # ys" "id' r = taskID" "taskID \<notin> id' ` set xs" "excise taskID l = xs @ ys"
      by blast
    from h False have "a # l = (a # xs) @ r # ys \<and> id' r = taskID \<and>
                       taskID \<notin> id' ` set (a # xs) \<and> excise taskID (a # l) = (a # xs) @ ys"
      by auto
    then show ?thesis by blast
  qed
qed

lemma length_excise:
  "taskID \<in> id' ` set l \<Longrightarrow> Suc (length (excise taskID l)) = length l"
  by (induction l) auto


lemma set_excise: "set (excise taskID l) \<subseteq> set l"
  by (induction l) auto

lemma distinct_excise: "distinct (map id' l) \<Longrightarrow> distinct (map id' (excise taskID l))"
proof (induction l)
  case Nil
  then show ?case by simp
next
  case (Cons a l)
  have "id' ` set (excise taskID l) \<subseteq> id' ` set l"
    using set_excise [of taskID l] by blast
  with Cons show ?case by auto
qed

lemma mset_ids_excise:
  "taskID \<in> id' ` set l \<Longrightarrow>
   mset (map id' (excise taskID l)) = mset (map id' l) - {#taskID#}"
  by (induction l) auto

lemma excise_append_fresh:
  "taskID \<notin> id' ` set l \<Longrightarrow> id' r = taskID \<Longrightarrow> excise taskID (l @ [r]) = l"
  by (induction l) auto

lemma add_eq:
  "add label s =
     (uuid4 s (drawn s),
      s\<lparr>drawn := Suc (drawn s),
        taskList := taskList s @ [\<lparr>id' = uuid4 s (drawn s), task = label\<rparr>],
        taskChanged := (if taskList s = [] then taskChanged s @ [label] else taskChanged s)\<rparr>)"
  by (simp add: add_def generateTaskID_def addLast_def emit_def Let_def)

lemma names_avoid:
  "set ps \<subseteq> task ` set l \<Longrightarrow> (\<forall>r\<in>set l. task r \<noteq> p) \<longrightarrow> p \<notin> set ps"
  by auto

subsection \<open>The sample handlers, evaluated\<close>

lemma clone_fetch_eq:
  "clone_fetch =
     \<lparr>taskList = [\<lparr>id' = ''u'', task = ''clone''\<rparr>, \<lparr>id' = ''uu'', task = ''fetch''\<rparr>],
      taskChanged = [''clone''], uuid4 = sample_ids, drawn = 2\<rparr>"
  by (simp add: clone_fetch_def add_def generateTaskID_def new_TaskHandler_def addLast_def
      emit_def sample_ids_def numeral_2_eq_2)

lemma empty_fetch_eq:
  "empty_fetch =
     \<lparr>taskList = [\<lparr>id' = ''u'', task = ''empty''\<rparr>, \<lparr>id' = ''uu'', task = ''fetch''\<rparr>],
      taskChanged = [''empty''], uuid4 = sample_ids, drawn = 2\<rparr>"
  by (simp add: empty_fetch_def add_def generateTaskID_def new_TaskHandler_def addLast_def
      emit_def sample_ids_def numeral_2_eq_2)

subsection \<open>Notifications of remove\<close>



subsection \<open>Notifications of add\<close>

text \<open>
  C2. \<^verbatim>\<open>add(label)\<close> returns the generated identifier and appends the record made of
  that identifier and the label at the tail. If the list was empty before the call it
  emits exactly one payload, the label; if the list was not empty it emits nothing.
\<close>

theorem add_appends_and_emits:
  "fst (add label s) = uuid4 s (drawn s) \<and>
   taskList (snd (add label s)) = taskList s @ [\<lparr>id' = fst (add label s), task = label\<rparr>] \<and>
   taskChanged (snd (add label s)) =
     (if taskList s = [] then taskChanged s @ [label] else taskChanged s)"
  by (simp add: add_def generateTaskID_def addLast_def emit_def)

subsection \<open>Failure of remove\<close>

text \<open>
  C4. On a handler whose list is empty, for instance a new one, \<^verbatim>\<open>remove\<close> does not
  return: \<^verbatim>\<open>firstNode\<close> is \<^verbatim>\<open>null\<close>, the guarded first test is false, and the loop
  condition reads \<^verbatim>\<open>node.next\<close> of \<^verbatim>\<open>null\<close>, a \<^verbatim>\<open>TypeError\<close>.
\<close>

theorem remove_on_new_handler_throws:
  "remove taskID (new_TaskHandler u) = Inl TypeError"
  by (simp add: remove_def firstNode_def new_TaskHandler_def)

subsection \<open>What remove takes out\<close>

text \<open>
  C6. When the identifier is in the list, \<^verbatim>\<open>remove(id)\<close> returns, and the list splits
  as \<open>xs @ r # ys\<close> where \<open>r\<close> bears the identifier and no record of \<open>xs\<close> does: \<open>r\<close> is
  the first match from the head. The list afterwards is \<open>xs @ ys\<close>: exactly \<open>r\<close> is gone
  and the other records keep their order.
\<close>

theorem remove_excises_first_match:
  assumes "taskID \<in> id' ` set (taskList s)"
  shows "\<exists>s' xs r ys. remove taskID s = Inr s' \<and> taskList s = xs @ r # ys \<and>
           id' r = taskID \<and> taskID \<notin> id' ` set xs \<and> taskList s' = xs @ ys"
proof -
  from assms have ne: "taskList s \<noteq> []" by auto
  from excise_present [OF assms] obtain xs r ys where
    h: "taskList s = xs @ r # ys" "id' r = taskID" "taskID \<notin> id' ` set xs"
       "excise taskID (taskList s) = xs @ ys"
    by blast
  let ?s' = "emit (case excise taskID (taskList s) of [] \<Rightarrow> ''empty'' | r # _ \<Rightarrow> task r)
               (s\<lparr>taskList := excise taskID (taskList s)\<rparr>)"
  have "remove taskID s = Inr ?s'"
    using ne by (rule remove_nonempty)
  moreover have "taskList ?s' = xs @ ys"
    using h(4) by (simp add: emit_def)
  ultimately show ?thesis
    using h(1,2,3) by blast
qed

theorem remove_excises_first_match_witness:
  "''uu'' \<in> id' ` set (taskList clone_fetch) \<and>
   (\<exists>s' xs r ys. remove ''uu'' clone_fetch = Inr s' \<and> taskList clone_fetch = xs @ r # ys \<and>
      id' r = ''uu'' \<and> ''uu'' \<notin> id' ` set xs \<and> taskList s' = xs @ ys)"
proof -
  have h: "''uu'' \<in> id' ` set (taskList clone_fetch)"
    by (simp add: clone_fetch_eq)
  show ?thesis
    using h remove_excises_first_match [OF h] by simp
qed

subsection \<open>An identifier that is not in the list\<close>

text \<open>
  C9. On a non-empty list, \<^verbatim>\<open>remove(id)\<close> with an identifier that no record bears
  returns, leaves the list as it is, and still emits one payload, the task name of the
  head record: the state afterwards differs from the state before in that payload only.
\<close>

theorem remove_absent_reannounces_head:
  assumes "taskList s \<noteq> []" and "taskID \<notin> id' ` set (taskList s)"
  shows "remove taskID s = Inr (s\<lparr>taskChanged := taskChanged s @ [task (hd (taskList s))]\<rparr>)"
proof -
  from assms(2) have "excise taskID (taskList s) = taskList s"
    by (rule excise_absent)
  with assms(1) show ?thesis
    by (cases "taskList s") (simp_all add: remove_nonempty emit_def)
qed

theorem remove_absent_reannounces_head_witness:
  "taskList clone_fetch \<noteq> [] \<and> ''stale'' \<notin> id' ` set (taskList clone_fetch) \<and>
   remove ''stale'' clone_fetch =
     Inr (clone_fetch\<lparr>taskChanged := [''clone'', ''clone'']\<rparr>)"
proof -
  have h1: "taskList clone_fetch \<noteq> []"
    by (simp add: clone_fetch_eq)
  have h2: "''stale'' \<notin> id' ` set (taskList clone_fetch)"
    by (simp add: clone_fetch_eq)
  show ?thesis
    using h1 h2 remove_absent_reannounces_head [OF h1 h2] by (simp add: clone_fetch_eq)
qed

subsection \<open>The payload for the empty list\<close>

lemma remove_Inr:
  "remove taskID s = Inr s' \<Longrightarrow>
   taskList s \<noteq> [] \<and>
   s' = emit (case excise taskID (taskList s) of [] \<Rightarrow> ''empty'' | r # _ \<Rightarrow> task r)
          (s\<lparr>taskList := excise taskID (taskList s)\<rparr>)"
  by (cases "taskList s = []") (simp_all add: remove_empty remove_nonempty)

text \<open>
  C10. The payload emitted when the list becomes empty is the string \<^verbatim>\<open>'empty'\<close>, put on
  the same signal as the task names, which are strings too. So when a call of \<^verbatim>\<open>remove\<close>
  leaves a non-empty list whose head has the task name \<^verbatim>\<open>'empty'\<close>, and another call of
  \<^verbatim>\<open>remove\<close> leaves the empty list, both emit the same single payload.
\<close>

theorem empty_payload_is_a_task_name:
  assumes "remove i s = Inr s'" and "taskList s' \<noteq> []" and "task (hd (taskList s')) = ''empty''"
    and "remove j t = Inr t'" and "taskList t' = []"
  shows "taskChanged s' = taskChanged s @ [''empty''] \<and>
         taskChanged t' = taskChanged t @ [''empty'']"
proof -
  from remove_Inr [OF assms(1)] assms(2,3)
  have a: "taskChanged s' = taskChanged s @ [''empty'']"
    by (cases "excise i (taskList s)") (simp_all add: emit_def)
  from remove_Inr [OF assms(4)] assms(5)
  have b: "taskChanged t' = taskChanged t @ [''empty'']"
    by (cases "excise j (taskList t)") (simp_all add: emit_def)
  from a b show ?thesis by simp
qed

theorem empty_payload_is_a_task_name_witness:
  "remove ''uu'' empty_fetch =
     Inr (empty_fetch\<lparr>taskList := [\<lparr>id' = ''u'', task = ''empty''\<rparr>],
                       taskChanged := [''empty'', ''empty'']\<rparr>) \<and>
   remove ''u'' (empty_fetch\<lparr>taskList := [\<lparr>id' = ''u'', task = ''empty''\<rparr>],
                              taskChanged := [''empty'', ''empty'']\<rparr>) =
     Inr (empty_fetch\<lparr>taskList := [], taskChanged := [''empty'', ''empty'', ''empty'']\<rparr>) \<and>
   taskChanged (empty_fetch\<lparr>taskList := [\<lparr>id' = ''u'', task = ''empty''\<rparr>],
                            taskChanged := [''empty'', ''empty'']\<rparr>) =
     taskChanged empty_fetch @ [''empty''] \<and>
   taskChanged (empty_fetch\<lparr>taskList := [], taskChanged := [''empty'', ''empty'', ''empty'']\<rparr>) =
     taskChanged (empty_fetch\<lparr>taskList := [\<lparr>id' = ''u'', task = ''empty''\<rparr>],
                              taskChanged := [''empty'', ''empty'']\<rparr>) @ [''empty'']"
proof -
  let ?s' = "empty_fetch\<lparr>taskList := [\<lparr>id' = ''u'', task = ''empty''\<rparr>],
                          taskChanged := [''empty'', ''empty'']\<rparr>"
  let ?t' = "empty_fetch\<lparr>taskList := [], taskChanged := [''empty'', ''empty'', ''empty'']\<rparr>"
  have h1: "remove ''uu'' empty_fetch = Inr ?s'"
    by (simp add: remove_nonempty empty_fetch_eq emit_def)
  have h2: "taskList ?s' \<noteq> []"
    by simp
  have h3: "task (hd (taskList ?s')) = ''empty''"
    by simp
  have h4: "remove ''u'' ?s' = Inr ?t'"
    by (simp add: remove_nonempty empty_fetch_eq emit_def)
  have h5: "taskList ?t' = []"
    by simp
  show ?thesis
    using h1 h4 empty_payload_is_a_task_name [OF h1 h2 h3 h4 h5] by simp
qed

subsection \<open>The wrapper execute\<close>

text \<open>
  Let \<^verbatim>\<open>add(name)\<close> return the identifier \<open>taskID\<close>, and let the callable settle with
  the outcome \<open>result\<close>, a value or a failure, at a moment when the handler's list is not
  empty. Then the \<^verbatim>\<open>remove(taskID)\<close> of the \<^verbatim>\<open>finally\<close> block returns: it excises the
  first record bearing \<open>taskID\<close> and emits one payload, and \<^verbatim>\<open>execute\<close> settles with
  \<open>result\<close> itself.
\<close>

lemma execute_on_nonempty:
  assumes "add name s = (taskID, s1)" and "callable s1 = (result, s2)"
    and "taskList s2 \<noteq> []"
  shows "\<exists>s3 p. remove taskID s2 = Inr s3 \<and> execute name callable s = (result, s3) \<and>
           taskList s3 = excise taskID (taskList s2) \<and>
           taskChanged s3 = taskChanged s2 @ [p]"
proof -
  let ?p = "case excise taskID (taskList s2) of [] \<Rightarrow> ''empty'' | r # _ \<Rightarrow> task r"
  let ?s3 = "emit ?p (s2\<lparr>taskList := excise taskID (taskList s2)\<rparr>)"
  have r: "remove taskID s2 = Inr ?s3"
    using assms(3) by (rule remove_nonempty)
  have e: "execute name callable s = (result, ?s3)"
    using assms(1,2) r by (simp add: execute_def)
  have "taskList ?s3 = excise taskID (taskList s2)" and "taskChanged ?s3 = taskChanged s2 @ [?p]"
    by (simp_all add: emit_def)
  with r e show ?thesis by blast
qed

lemma execute_on_nonempty_example:
  "add ''push'' clone_fetch =
     (''uuu'', clone_fetch\<lparr>taskList := taskList clone_fetch @ [\<lparr>id' = ''uuu'', task = ''push''\<rparr>],
                           drawn := 3\<rparr>) \<and>
   rejecting (clone_fetch\<lparr>taskList := taskList clone_fetch @ [\<lparr>id' = ''uuu'', task = ''push''\<rparr>],
                          drawn := 3\<rparr>) =
     (Inl (Thrown ''offline''),
      clone_fetch\<lparr>taskList := taskList clone_fetch @ [\<lparr>id' = ''uuu'', task = ''push''\<rparr>],
                  drawn := 3\<rparr>) \<and>
   execute ''push'' rejecting clone_fetch =
     (Inl (Thrown ''offline''), clone_fetch\<lparr>taskChanged := [''clone'', ''clone''], drawn := 3\<rparr>)"
proof -
  let ?s1 = "clone_fetch\<lparr>taskList := taskList clone_fetch @ [\<lparr>id' = ''uuu'', task = ''push''\<rparr>],
                         drawn := 3\<rparr>"
  have h1: "add ''push'' clone_fetch = (''uuu'', ?s1)"
    by (simp add: clone_fetch_eq add_def generateTaskID_def addLast_def sample_ids_def
        numeral_3_eq_3 numeral_2_eq_2)
  have h2: "rejecting ?s1 = (Inl (Thrown ''offline''), ?s1)"
    by (simp add: rejecting_def)
  have h3: "taskList ?s1 \<noteq> []"
    by simp
  have r: "remove ''uuu'' ?s1 =
             Inr (clone_fetch\<lparr>taskChanged := [''clone'', ''clone''], drawn := 3\<rparr>)"
    by (simp add: remove_nonempty clone_fetch_eq emit_def)
  show ?thesis
    using h1 h2 r
      execute_on_nonempty [of "''push''" clone_fetch "''uuu''" ?s1 rejecting, OF h1 h2 h3]
    by auto
qed


text \<open>
  C8, as stated, fails: the list need not have its former length when \<^verbatim>\<open>execute\<close>
  settles. On a new handler, a callable during which \<^verbatim>\<open>add('pull')\<close> is called leaves
  that task pending, so \<^verbatim>\<open>execute('push', ...)\<close> starts with no record and settles
  with one.
\<close>

theorem execute_length_counterexample:
  "execute ''push'' adding_pull (new_TaskHandler sample_ids) =
     (Inr (), \<lparr>taskList = [\<lparr>id' = ''uu'', task = ''pull''\<rparr>],
               taskChanged = [''push'', ''pull''], uuid4 = sample_ids, drawn = 2\<rparr>) \<and>
   length (taskList (snd (execute ''push'' adding_pull (new_TaskHandler sample_ids)))) \<noteq>
   length (taskList (new_TaskHandler sample_ids))"
proof -
  have "execute ''push'' adding_pull (new_TaskHandler sample_ids) =
     (Inr (), \<lparr>taskList = [\<lparr>id' = ''uu'', task = ''pull''\<rparr>],
               taskChanged = [''push'', ''pull''], uuid4 = sample_ids, drawn = 2\<rparr>)"
    by (simp add: execute_def adding_pull_def add_def generateTaskID_def addLast_def
        new_TaskHandler_def sample_ids_def emit_def remove_nonempty numeral_2_eq_2)
  then show ?thesis
    by (simp add: new_TaskHandler_def)
qed

text \<open>
  C8, amended. Suppose that when the callable settles the list is what it was right
  after \<^verbatim>\<open>execute\<close> added its record: no other call has changed it in between. Then
  \<^verbatim>\<open>execute\<close> settles with the callable's outcome, value or failure, and the list has
  the length it had before the call. If moreover the generated identifier was not
  already borne by a record of the list, the list is the one before the call: the same
  records in the same order.
\<close>

theorem execute_restores_list:
  assumes "callable (snd (add name s)) = (result, s2)"
    and "taskList s2 = taskList (snd (add name s))"
  shows "fst (execute name callable s) = result \<and>
         length (taskList (snd (execute name callable s))) = length (taskList s) \<and>
         (fst (add name s) \<notin> id' ` set (taskList s) \<longrightarrow>
            taskList (snd (execute name callable s)) = taskList s)"
proof -
  let ?tid = "fst (add name s)"
  let ?r = "\<lparr>id' = ?tid, task = name\<rparr>"
  have l2: "taskList s2 = taskList s @ [?r]"
    using assms(2) by (simp add: add_eq)
  then have ne: "taskList s2 \<noteq> []" by simp
  let ?l3 = "excise ?tid (taskList s2)"
  let ?s3 = "emit (case ?l3 of [] \<Rightarrow> ''empty'' | r # _ \<Rightarrow> task r) (s2\<lparr>taskList := ?l3\<rparr>)"
  have "remove ?tid s2 = Inr ?s3"
    using ne by (rule remove_nonempty)
  then have e: "execute name callable s = (result, ?s3)"
    using assms(1) by (simp add: execute_def split_beta)
  have "?tid \<in> id' ` set (taskList s2)"
    using l2 by simp
  then have "Suc (length ?l3) = length (taskList s2)"
    by (rule length_excise)
  then have len: "length ?l3 = length (taskList s)"
    using l2 by simp
  have same: "?tid \<notin> id' ` set (taskList s) \<longrightarrow> ?l3 = taskList s"
    using l2 by (simp add: excise_append_fresh)
  from e len same show ?thesis
    by (simp add: emit_def)
qed

theorem execute_restores_list_witness:
  "rejecting (snd (add ''push'' clone_fetch)) =
     (Inl (Thrown ''offline''), snd (add ''push'' clone_fetch)) \<and>
   fst (add ''push'' clone_fetch) \<notin> id' ` set (taskList clone_fetch) \<and>
   fst (execute ''push'' rejecting clone_fetch) = Inl (Thrown ''offline'') \<and>
   length (taskList (snd (execute ''push'' rejecting clone_fetch))) = 2 \<and>
   taskList (snd (execute ''push'' rejecting clone_fetch)) = taskList clone_fetch"
proof -
  have h1: "rejecting (snd (add ''push'' clone_fetch)) =
              (Inl (Thrown ''offline''), snd (add ''push'' clone_fetch))"
    by (simp add: rejecting_def)
  have h2: "taskList (snd (add ''push'' clone_fetch)) = taskList (snd (add ''push'' clone_fetch))"
    by simp
  have f: "fst (add ''push'' clone_fetch) \<notin> id' ` set (taskList clone_fetch)"
    by (simp add: clone_fetch_eq add_eq sample_ids_def numeral_3_eq_3 numeral_2_eq_2)
  show ?thesis
    using h1 f
      execute_restores_list [of rejecting "''push''" clone_fetch "Inl (Thrown ''offline'')"
        "snd (add ''push'' clone_fetch)", OF h1 h2]
    by (simp add: clone_fetch_eq)
qed

subsection \<open>Identifiers in the list\<close>

lemma step_keeps_ids_distinct:
  assumes "inj (uuid4 s)" and "distinct (map id' (taskList s))"
    and "id' ` set (taskList s) \<subseteq> uuid4 s ` {..<drawn s}"
    and "step c s = Inr s'"
  shows "uuid4 s' = uuid4 s \<and> distinct (map id' (taskList s')) \<and>
         id' ` set (taskList s') \<subseteq> uuid4 s' ` {..<drawn s'}"
proof (cases c)
  case (Add t)
  have new: "uuid4 s (drawn s) \<notin> uuid4 s ` {..<drawn s}"
  proof
    assume "uuid4 s (drawn s) \<in> uuid4 s ` {..<drawn s}"
    then obtain k where "k < drawn s" and "uuid4 s (drawn s) = uuid4 s k"
      by auto
    with assms(1) show False
      by (auto dest: injD)
  qed
  with assms(3) have fresh: "uuid4 s (drawn s) \<notin> id' ` set (taskList s)"
    by blast
  from Add assms(4) have s': "taskList s' = taskList s @ [\<lparr>id' = uuid4 s (drawn s), task = t\<rparr>]"
    "uuid4 s' = uuid4 s" "drawn s' = Suc (drawn s)"
    by (auto simp: add_eq)
  have d: "distinct (map id' (taskList s'))"
    using fresh assms(2) s'(1) by simp
  have "uuid4 s ` {..<drawn s} \<subseteq> uuid4 s ` {..<Suc (drawn s)}"
    by (intro image_mono) simp
  with assms(3) have "id' ` set (taskList s) \<subseteq> uuid4 s ` {..<Suc (drawn s)}"
    by (rule subset_trans)
  moreover have "uuid4 s (drawn s) \<in> uuid4 s ` {..<Suc (drawn s)}"
    by simp
  ultimately have "id' ` set (taskList s') \<subseteq> uuid4 s' ` {..<drawn s'}"
    using s' by simp
  with d s'(2) show ?thesis
    by simp
next
  case (Remove i)
  with assms(4) have r: "remove i s = Inr s'"
    by simp
  let ?l = "excise i (taskList s)"
  from remove_Inr [OF r] have s': "taskList s' = ?l" "uuid4 s' = uuid4 s" "drawn s' = drawn s"
    by (simp_all add: emit_def)
  have "id' ` set ?l \<subseteq> id' ` set (taskList s)"
    using set_excise [of i "taskList s"] by blast
  with assms(3) have "id' ` set ?l \<subseteq> uuid4 s ` {..<drawn s}"
    by blast
  moreover have "distinct (map id' ?l)"
    using assms(2) by (rule distinct_excise)
  ultimately show ?thesis
    using s' by simp
qed

lemma run_keeps_ids_distinct:
  "inj (uuid4 s) \<Longrightarrow> distinct (map id' (taskList s)) \<Longrightarrow>
   id' ` set (taskList s) \<subseteq> uuid4 s ` {..<drawn s} \<Longrightarrow>
   run cs s = Inr s' \<Longrightarrow> distinct (map id' (taskList s'))"
proof (induction cs arbitrary: s)
  case Nil
  then show ?case by simp
next
  case (Cons c cs)
  from Cons.prems(4) obtain s1 where c: "step c s = Inr s1" and r: "run cs s1 = Inr s'"
    by (auto split: sum.splits)
  from step_keeps_ids_distinct [OF Cons.prems(1,2,3) c]
  have k: "uuid4 s1 = uuid4 s" "distinct (map id' (taskList s1))"
    "id' ` set (taskList s1) \<subseteq> uuid4 s1 ` {..<drawn s1}"
    by blast+
  from k(1) Cons.prems(1) have "inj (uuid4 s1)"
    by simp
  then show ?case
    using k(2,3) r by (rule Cons.IH)
qed

lemma inj_sample_ids: "inj sample_ids"
proof (rule injI)
  fix m n
  assume "sample_ids m = sample_ids n"
  then have "length (sample_ids m) = length (sample_ids n)"
    by simp
  then show "m = n"
    by (simp add: sample_ids_def)
qed

text \<open>
  C5. Take a new handler whose identifier source never returns the same value twice
  (the handler does not check this itself), and any finite sequence of \<^verbatim>\<open>add\<close> and
  \<^verbatim>\<open>remove\<close> calls. After any number \<open>n\<close> of these calls, the identifiers of the records
  in the list are pairwise distinct. Task names may repeat.
\<close>

theorem ids_pairwise_distinct:
  assumes "inj u" and "run (take n cs) (new_TaskHandler u) = Inr s"
  shows "distinct (map id' (taskList s))"
proof -
  have "inj (uuid4 (new_TaskHandler u))"
    and "distinct (map id' (taskList (new_TaskHandler u)))"
    and "id' ` set (taskList (new_TaskHandler u)) \<subseteq>
         uuid4 (new_TaskHandler u) ` {..<drawn (new_TaskHandler u)}"
    using assms(1) by (simp_all add: new_TaskHandler_def)
  then show ?thesis
    using assms(2) by (rule run_keeps_ids_distinct)
qed

theorem ids_pairwise_distinct_witness:
  "inj sample_ids \<and>
   run (take 4 [Add ''clone'', Add ''clone'', Remove ''u'', Add ''clone'', Remove ''zz''])
     (new_TaskHandler sample_ids) =
     Inr \<lparr>taskList = [\<lparr>id' = ''uu'', task = ''clone''\<rparr>, \<lparr>id' = ''uuu'', task = ''clone''\<rparr>],
          taskChanged = [''clone'', ''clone''], uuid4 = sample_ids, drawn = 3\<rparr> \<and>
   distinct (map id' [\<lparr>id' = ''uu'', task = ''clone''\<rparr>, \<lparr>id' = ''uuu'', task = ''clone''\<rparr>])"
proof -
  let ?s = "\<lparr>taskList = [\<lparr>id' = ''uu'', task = ''clone''\<rparr>, \<lparr>id' = ''uuu'', task = ''clone''\<rparr>],
            taskChanged = [''clone'', ''clone''], uuid4 = sample_ids, drawn = 3\<rparr>"
  have h: "run (take 4 [Add ''clone'', Add ''clone'', Remove ''u'', Add ''clone'', Remove ''zz''])
             (new_TaskHandler sample_ids) = Inr ?s"
    by (simp add: add_eq remove_nonempty emit_def new_TaskHandler_def sample_ids_def
        numeral_3_eq_3 numeral_2_eq_2 eval_nat_numeral)
  show ?thesis
    using h inj_sample_ids ids_pairwise_distinct [OF inj_sample_ids h] by simp
qed

subsection \<open>Draining the list\<close>

text \<open>
  C7, as stated, fails when a task is named \<^verbatim>\<open>'empty'\<close>. The handler after
  \<^verbatim>\<open>add('empty')\<close> and \<^verbatim>\<open>add('fetch')\<close> holds two records; removing the second and then
  the first drains it, and the two calls emit \<^verbatim>\<open>'empty'\<close> twice: once as the task name of
  the head that remains, once for the empty list.
\<close>

theorem drain_emits_empty_twice_counterexample:
  "mset [''uu'', ''u''] = mset (map id' (taskList empty_fetch)) \<and>
   run (map Remove [''uu'', ''u'']) empty_fetch =
     Inr (empty_fetch\<lparr>taskList := [],
                       taskChanged := taskChanged empty_fetch @ [''empty'', ''empty'']\<rparr>)"
  by (simp add: empty_fetch_eq remove_nonempty emit_def)

text \<open>
  C7, amended. Let the list hold \<open>N \<ge> 1\<close> records and let \<open>rs\<close> be the \<open>N\<close> identifiers of
  these records in any order. Then the \<open>N\<close> calls \<^verbatim>\<open>remove(i)\<close> for \<open>i\<close> in \<open>rs\<close> all
  return and leave the list empty. They emit \<open>N\<close> payloads: the first \<open>N - 1\<close> are task
  names of records of the list, and the last, emitted by the call that removes the last
  remaining record, is \<^verbatim>\<open>'empty'\<close>. So when no record has the task name \<^verbatim>\<open>'empty'\<close>, the
  payload \<^verbatim>\<open>'empty'\<close> is emitted exactly once, by that last call.
\<close>

theorem drain_emits_empty_once:
  assumes "rs \<noteq> []" and "mset rs = mset (map id' (taskList s))"
  shows "\<exists>s' ps. run (map Remove rs) s = Inr s' \<and> taskList s' = [] \<and>
           taskChanged s' = taskChanged s @ ps @ [''empty''] \<and>
           length ps = length rs - 1 \<and> set ps \<subseteq> task ` set (taskList s) \<and>
           ((\<forall>r\<in>set (taskList s). task r \<noteq> ''empty'') \<longrightarrow> ''empty'' \<notin> set ps)"
  using assms
proof (induction rs arbitrary: s)
  case Nil
  then show ?case by simp
next
  case (Cons i rs)
  let ?l1 = "excise i (taskList s)"
  let ?p = "case ?l1 of [] \<Rightarrow> ''empty'' | r # _ \<Rightarrow> task r"
  let ?s1 = "emit ?p (s\<lparr>taskList := ?l1\<rparr>)"
  have "i \<in># mset (map id' (taskList s))"
    using Cons.prems(2) by (metis list.set_intros(1) set_mset_mset)
  then have mem: "i \<in> id' ` set (taskList s)"
    by simp
  then have ne: "taskList s \<noteq> []"
    by auto
  have rem: "remove i s = Inr ?s1"
    using ne by (rule remove_nonempty)
  have "mset (map id' ?l1) = mset (map id' (taskList s)) - {#i#}"
    using mem by (rule mset_ids_excise)
  also have "\<dots> = mset rs"
    using Cons.prems(2) [symmetric] by simp
  finally have ms: "mset rs = mset (map id' (taskList ?s1))"
    by (simp add: emit_def)
  show ?case
  proof (cases "rs = []")
    case True
    with ms have "?l1 = []"
      by (simp add: emit_def)
    then have "taskList ?s1 = []" and "taskChanged ?s1 = taskChanged s @ [] @ [''empty'']"
      by (simp_all add: emit_def)
    moreover have "run (map Remove (i # rs)) s = Inr ?s1"
      using True rem by simp
    moreover have "length ([]::string list) = length (i # rs) - 1"
      using True by simp
    moreover have "set ([]::string list) \<subseteq> task ` set (taskList s)"
      by simp
    moreover have "(\<forall>r\<in>set (taskList s). task r \<noteq> ''empty'') \<longrightarrow>
                   ''empty'' \<notin> set ([]::string list)"
      by simp
    ultimately show ?thesis
      by blast
  next
    case False
    have sub: "set ?l1 \<subseteq> set (taskList s)"
      by (rule set_excise)
    from Cons.IH [OF False ms] obtain s' ps where
      h: "run (map Remove rs) ?s1 = Inr s'" "taskList s' = []"
         "taskChanged s' = taskChanged ?s1 @ ps @ [''empty'']"
         "length ps = length rs - 1" "set ps \<subseteq> task ` set (taskList ?s1)"
      by blast
    from False ms have "?l1 \<noteq> []"
      by (auto simp: emit_def)
    then obtain r l' where l1: "?l1 = r # l'"
      by (cases ?l1) auto
    then have rin: "r \<in> set (taskList s)"
      using sub by auto
    have tc: "taskChanged ?s1 = taskChanged s @ [task r]"
      using l1 by (simp add: emit_def)
    have run: "run (map Remove (i # rs)) s = Inr s'"
      using rem h(1) by simp
    have pay: "taskChanged s' = taskChanged s @ (task r # ps) @ [''empty'']"
      using h(3) tc by simp
    have len: "length (task r # ps) = length (i # rs) - 1"
      using h(4) False by (cases rs) simp_all
    have "task ` set (taskList ?s1) \<subseteq> task ` set (taskList s)"
      using sub by (auto simp: emit_def)
    with h(5) rin have names: "set (task r # ps) \<subseteq> task ` set (taskList s)"
      by auto
    then have "(\<forall>r\<in>set (taskList s). task r \<noteq> ''empty'') \<longrightarrow>
               ''empty'' \<notin> set (task r # ps)"
      by (rule names_avoid)
    with run h(2) pay len names show ?thesis
      by blast
  qed
qed

theorem drain_emits_empty_once_witness:
  "[''uu'', ''u''] \<noteq> [] \<and>
   mset [''uu'', ''u''] = mset (map id' (taskList clone_fetch)) \<and>
   ''empty'' \<notin> task ` set (taskList clone_fetch) \<and>
   run (map Remove [''uu'', ''u'']) clone_fetch =
     Inr (clone_fetch\<lparr>taskList := [],
                       taskChanged := taskChanged clone_fetch @ [''clone''] @ [''empty'']\<rparr>)"
proof -
  have h1: "[''uu'', ''u''] \<noteq> ([]::string list)"
    by simp
  have h2: "mset [''uu'', ''u''] = mset (map id' (taskList clone_fetch))"
    by (simp add: clone_fetch_eq)
  have h3: "''empty'' \<notin> task ` set (taskList clone_fetch)"
    by (simp add: clone_fetch_eq)
  have r: "run (map Remove [''uu'', ''u'']) clone_fetch =
             Inr (clone_fetch\<lparr>taskList := [],
                               taskChanged := taskChanged clone_fetch @ [''clone''] @ [''empty'']\<rparr>)"
    by (simp add: clone_fetch_eq remove_nonempty emit_def)
  show ?thesis
    using h2 h3 r drain_emits_empty_once [OF h1 h2] by simp
qed

end
